theory Spec2Isabelle
  imports Complex_Main "HOL-Library.Multiset"
begin

section \<open>Outcomes of a JavaScript computation\<close>

text \<open>
  The two functions of \<^verbatim>\<open>src/index.js\<close> that do the work, \<^verbatim>\<open>decodeValue\<close> and
  \<^verbatim>\<open>lagrangeInterpolationAtZero\<close>, compute on \<^verbatim>\<open>BigInt\<close> values, modelled as \<open>int\<close>.
  The only exceptions they can throw are the two \<^verbatim>\<open>RangeError\<close>s of \<^verbatim>\<open>BigInt\<close>
  arithmetic: converting a Number that is not an integer (\<^verbatim>\<open>NaN\<close> or an infinity), and
  dividing by \<^verbatim>\<open>0n\<close>. A computation returns a value, throws, or runs forever.
\<close>

datatype js_error = RangeError_not_an_integer | RangeError_division_by_zero

datatype 'a result = Return 'a | Throw js_error | Diverge

fun bind_result :: "'a result \<Rightarrow> ('a \<Rightarrow> 'b result) \<Rightarrow> 'b result" where
  "bind_result (Return v) f = f v"
| "bind_result (Throw e) f = Throw e"
| "bind_result Diverge f = Diverge"

text \<open>\<^verbatim>\<open>a / b\<close> and \<^verbatim>\<open>a % b\<close> on BigInts round towards zero; \<^verbatim>\<open>/\<close> by \<^verbatim>\<open>0n\<close> throws.\<close>

definition tdiv :: "int \<Rightarrow> int \<Rightarrow> int" where
  "tdiv a b = sgn a * sgn b * (\<bar>a\<bar> div \<bar>b\<bar>)"

definition trem :: "int \<Rightarrow> int \<Rightarrow> int" where
  "trem a b = sgn a * (\<bar>a\<bar> mod \<bar>b\<bar>)"

definition bigint_div :: "int \<Rightarrow> int \<Rightarrow> int result" where
  "bigint_div a b = (if b = 0 then Throw RangeError_division_by_zero else Return (tdiv a b))"

section \<open>Step 1: \<^verbatim>\<open>decodeValue\<close>\<close>

text \<open>
  A string is the list of its code points, which is what \<^verbatim>\<open>for (const char of ...)\<close>
  iterates over. A string literal of this theory is ASCII; \<open>js_string\<close> gives its code
  points.
\<close>

type_synonym code_point = nat

definition js_string :: "string \<Rightarrow> code_point list" where
  "js_string s = map of_char s"

text \<open>
  The Number that \<^verbatim>\<open>decodeValue\<close> receives as \<^verbatim>\<open>base\<close> is a result of \<^verbatim>\<open>parseInt\<close>
  (line 120): an integer-valued Number, \<^verbatim>\<open>NaN\<close> or an infinity.
  \<^item> \<open>Integer v\<close> is the integer \<open>v\<close>, of magnitude below \<open>10^21\<close>; its string form is its
    decimal digits.
  \<^item> \<open>Exponential v d\<close> is the integer \<open>v\<close>, of magnitude \<open>10^21\<close> or more; its string form
    is in exponent notation (\<^verbatim>\<open>1e+21\<close>, \<^verbatim>\<open>-2.5e+30\<close>) and starts with the digit \<open>d\<close>, which
    has the sign of \<open>v\<close>. The digit belongs to the shortest decimal that reads back as the
    Number, which need not be the first digit of \<open>v\<close> (the Number \<^verbatim>\<open>1e23\<close> is the integer
    99999999999999991611392), so it is carried with the value.
\<close>

datatype number = Integer int | Exponential int int | NaN | Infinity | MinusInfinity

text \<open>\<^verbatim>\<open>BigInt(number)\<close> throws a RangeError on a Number that is not an integer.\<close>

fun BigInt :: "number \<Rightarrow> int result" where
  "BigInt (Integer v) = Return v"
| "BigInt (Exponential v d) = Return v"
| "BigInt NaN = Throw RangeError_not_an_integer"
| "BigInt Infinity = Throw RangeError_not_an_integer"
| "BigInt MinusInfinity = Throw RangeError_not_an_integer"

text \<open>
  \<^verbatim>\<open>parseInt(base)\<close>: the string form of the Number, read in radix 10 up to the first
  character that is no decimal digit.
\<close>

fun parseInt_number :: "number \<Rightarrow> number" where
  "parseInt_number (Integer v) = Integer v"
| "parseInt_number (Exponential v d) = Integer d"
| "parseInt_number NaN = NaN"
| "parseInt_number Infinity = NaN"
| "parseInt_number MinusInfinity = NaN"

definition modulo32 :: "int \<Rightarrow> int" where
  "modulo32 v = (let m = v mod 2 ^ 32 in if 2 ^ 31 \<le> m then m - 2 ^ 32 else m)"

fun ToInt32 :: "number \<Rightarrow> int" where
  "ToInt32 (Integer v) = modulo32 v"
| "ToInt32 (Exponential v d) = modulo32 v"
| "ToInt32 NaN = 0"
| "ToInt32 Infinity = 0"
| "ToInt32 MinusInfinity = 0"

text \<open>
  \<^verbatim>\<open>toLowerCase\<close>, code point by code point. Up to U+00FF the mapping is complete: the
  letters A-Z and U+00C0 to U+00DE (without the multiplication sign U+00D7) move up by
  32. Beyond U+00FF the two code points whose lower-case form contains an ASCII character
  are mapped as JavaScript maps them: U+0130 (capital I with dot above) to \<^verbatim>\<open>i\<close> followed by
  U+0307, and U+212A (KELVIN SIGN) to \<^verbatim>\<open>k\<close>. Every other code point beyond U+00FF has a
  lower-case form without ASCII characters and is left in place: \<^verbatim>\<open>parseInt\<close> reads no
  code point above U+007F as a digit, so it cannot tell the two apart.
\<close>

definition toLowerCase_cp :: "code_point \<Rightarrow> code_point list" where
  "toLowerCase_cp c =
     (if (65 \<le> c \<and> c \<le> 90) \<or> (192 \<le> c \<and> c \<le> 222 \<and> c \<noteq> 215) then [c + 32]
      else if c = 304 then [105, 775]
      else if c = 8490 then [107]
      else [c])"

definition toLowerCase :: "code_point list \<Rightarrow> code_point list" where
  "toLowerCase s = concat (map toLowerCase_cp s)"

text \<open>The digit a character stands for in \<^verbatim>\<open>parseInt\<close>: 0-9, then a-z or A-Z for 10-35.\<close>

definition digit_of_char :: "code_point \<Rightarrow> int option" where
  "digit_of_char c =
     (if 48 \<le> c \<and> c \<le> 57 then Some (int c - 48)
      else if 97 \<le> c \<and> c \<le> 122 then Some (int c - 87)
      else if 65 \<le> c \<and> c \<le> 90 then Some (int c - 55)
      else None)"

text \<open>
  \<^verbatim>\<open>parseInt(char, radix)\<close> on a string of one code point. The radix goes through
  \<^verbatim>\<open>ToInt32\<close>; 0 means 10; any other radix outside 2..36 gives \<^verbatim>\<open>NaN\<close>. A white-space
  character or a sign leaves the empty string, which is \<^verbatim>\<open>NaN\<close> like every character that
  is not a digit of the radix.
\<close>

definition parseInt_char :: "code_point \<Rightarrow> number \<Rightarrow> number" where
  "parseInt_char c radix =
     (let R = ToInt32 radix
      in if R \<noteq> 0 \<and> (R < 2 \<or> 36 < R) then NaN
         else (let R = (if R = 0 then 10 else R)
               in case digit_of_char c of
                    None \<Rightarrow> NaN
                  | Some d \<Rightarrow> if d < R then Integer d else NaN))"

text \<open>
  The \<^verbatim>\<open>for (const char of ...)\<close> loop, with the accumulator \<^verbatim>\<open>result\<close>; \<open>bigBase\<close> is
  the constant of line 19.
\<close>

fun decode_loop :: "number \<Rightarrow> int \<Rightarrow> code_point list \<Rightarrow> int \<Rightarrow> int result" where
  "decode_loop base bigBase [] result = Return result"
| "decode_loop base bigBase (c # cs) result =
     bind_result (BigInt (parseInt_char c (parseInt_number base)))
       (\<lambda>digit. decode_loop base bigBase cs (result * bigBase + digit))"

definition decodeValue :: "number \<Rightarrow> code_point list \<Rightarrow> int result" where
  "decodeValue base valueStr =
     bind_result (BigInt base)
       (\<lambda>bigBase. decode_loop base bigBase (toLowerCase valueStr) 0)"

section \<open>Step 2: \<^verbatim>\<open>lagrangeInterpolationAtZero\<close>\<close>

record point =
  x :: int
  y :: int

type_synonym frac = "int \<times> int"

text \<open>
  The \<^verbatim>\<open>while (b !== 0n)\<close> loop of \<^verbatim>\<open>gcd\<close>; \<open>None\<close> stands for a loop that never ends.
  Inside the loop \<open>b\<close> is not zero, so \<^verbatim>\<open>a % b\<close> cannot throw.
\<close>

partial_function (option) gcd_loop :: "int \<Rightarrow> int \<Rightarrow> int option" where
  "gcd_loop a b = (if b \<noteq> 0 then gcd_loop b (trem a b) else Some a)"

declare gcd_loop.simps [code]

definition gcd_js :: "int \<Rightarrow> int \<Rightarrow> int option" where
  "gcd_js a b = gcd_loop (if a < 0 then - a else a) (if b < 0 then - b else b)"

definition simplify :: "int \<Rightarrow> int \<Rightarrow> frac result" where
  "simplify num den =
     (let (num, den) = (if den < 0 then (- num, - den) else (num, den))
      in case gcd_js (if num < 0 then - num else num) den of
           None \<Rightarrow> Diverge
         | Some g \<Rightarrow>
             bind_result (bigint_div num g) (\<lambda>n'.
             bind_result (bigint_div den g) (\<lambda>d'. Return (n', d'))))"

definition addFrac :: "frac \<Rightarrow> frac \<Rightarrow> frac result" where
  "addFrac f1 f2 =
     (case f1 of (n1, d1) \<Rightarrow> case f2 of (n2, d2) \<Rightarrow> simplify (n1 * d2 + n2 * d1) (d1 * d2))"

definition mulFrac :: "frac \<Rightarrow> frac \<Rightarrow> frac result" where
  "mulFrac f1 f2 =
     (case f1 of (n1, d1) \<Rightarrow> case f2 of (n2, d2) \<Rightarrow> simplify (n1 * n2) (d1 * d2))"

text \<open>The inner loop over \<open>j\<close>: one step on the pair \<open>(num, den)\<close>, then all of them.\<close>

definition inner_step :: "point list \<Rightarrow> nat \<Rightarrow> nat \<Rightarrow> int \<times> int \<Rightarrow> int \<times> int" where
  "inner_step points i j nd =
     (case nd of (num, den) \<Rightarrow>
        if i \<noteq> j
        then (num * (0 - x (points ! j)), den * (x (points ! i) - x (points ! j)))
        else (num, den))"

definition inner_loop :: "point list \<Rightarrow> nat \<Rightarrow> int \<times> int" where
  "inner_loop points i = fold (inner_step points i) [0..<length points] (1, 1)"

text \<open>The body of the outer loop at index \<open>i\<close>, from the running \<^verbatim>\<open>result\<close> to the next.\<close>

definition outer_step :: "point list \<Rightarrow> nat \<Rightarrow> frac \<Rightarrow> frac result" where
  "outer_step points i result =
     (case inner_loop points i of (num, den) \<Rightarrow>
        bind_result (simplify num den) (\<lambda>li.
        bind_result (mulFrac (y (points ! i), 1) li) (\<lambda>term.
        addFrac result term)))"

fun outer_loop :: "point list \<Rightarrow> nat list \<Rightarrow> frac \<Rightarrow> frac result" where
  "outer_loop points [] result = Return result"
| "outer_loop points (i # is) result =
     bind_result (outer_step points i result) (outer_loop points is)"

text \<open>
  What the caller observes of a call that returns: whether \<^verbatim>\<open>console.warn\<close> was called,
  and the BigInt returned. The last statement divides, and so throws on a zero
  denominator.
\<close>

record outcome =
  warned :: bool
  val :: int

definition finish :: "frac \<Rightarrow> outcome result" where
  "finish result =
     (case result of (n, d) \<Rightarrow>
        bind_result (bigint_div n d) (\<lambda>q. Return \<lparr>warned = (d \<noteq> 1 \<and> d \<noteq> - 1), val = q\<rparr>))"

definition lagrangeInterpolationAtZero :: "point list \<Rightarrow> outcome result" where
  "lagrangeInterpolationAtZero points =
     bind_result (outer_loop points [0..<length points] (0, 1)) finish"

section \<open>Reference notions\<close>

text \<open>A call is rejected when it throws.\<close>

definition throws :: "'a result \<Rightarrow> bool" where
  "throws r = (case r of Throw e \<Rightarrow> True | _ \<Rightarrow> False)"

text \<open>
  The digit value of a character as the specification words it: the ordinal of a decimal
  digit, and 10 plus the ordinal of a letter in the alphabet, in either case.
\<close>

definition alnum_digit :: "code_point \<Rightarrow> int option" where
  "alnum_digit c =
     (if c \<in> set (js_string ''0123456789'') then Some (int c - int (of_char CHR ''0''))
      else if c \<in> set (js_string ''abcdefghijklmnopqrstuvwxyz'')
      then Some (10 + (int c - int (of_char CHR ''a'')))
      else if c \<in> set (js_string ''ABCDEFGHIJKLMNOPQRSTUVWXYZ'')
      then Some (10 + (int c - int (of_char CHR ''A'')))
      else None)"

text \<open>
  A character that is not alphanumeric, or whose digit value is not below the base. The
  KELVIN SIGN (U+212A, code point 8490) is left out: it is not alphanumeric, but
  \<^verbatim>\<open>toLowerCase\<close> turns it into the letter \<^verbatim>\<open>k\<close>.
\<close>

definition invalid_digit :: "int \<Rightarrow> code_point \<Rightarrow> bool" where
  "invalid_digit base c = (case alnum_digit c of None \<Rightarrow> c \<noteq> 8490 | Some d \<Rightarrow> base \<le> d)"

text \<open>
  The positional interpretation of a digit sequence: each digit times the base to the
  number of digits that follow it.
\<close>

definition positional_value :: "int \<Rightarrow> int list \<Rightarrow> int" where
  "positional_value base ds = (\<Sum>i\<leftarrow>[0..<length ds]. ds ! i * base ^ (length ds - Suc i))"

text \<open>The normal form of a fraction: positive denominator, lowest terms, zero as \<open>(0, 1)\<close>.\<close>

definition normal_form :: "frac \<Rightarrow> bool" where
  "normal_form f = (case f of (n, d) \<Rightarrow> 0 < d \<and> gcd \<bar>n\<bar> d = 1 \<and> (n = 0 \<longrightarrow> d = 1))"

text \<open>
  The Lagrange interpolant at 0 of a multiset of points, as a rational number, and the
  rational value of the term the outer loop adds at index \<open>i\<close>.
\<close>

definition basis_at_zero :: "point multiset \<Rightarrow> point \<Rightarrow> rat" where
  "basis_at_zero M p =
     Fract (\<Prod>q\<in>#filter_mset (\<lambda>q. x q \<noteq> x p) M. - x q)
           (\<Prod>q\<in>#filter_mset (\<lambda>q. x q \<noteq> x p) M. x p - x q)"

definition interpolate_at_zero :: "point multiset \<Rightarrow> rat" where
  "interpolate_at_zero M = (\<Sum>p\<in>#M. of_int (y p) * basis_at_zero M p)"

definition term_at :: "point list \<Rightarrow> nat \<Rightarrow> rat" where
  "term_at ps i = of_int (y (ps ! i)) * Fract (fst (inner_loop ps i)) (snd (inner_loop ps i))"

section \<open>The gcd loop and \<^verbatim>\<open>simplify\<close>\<close>

lemma trem_nonneg: "0 \<le> a \<Longrightarrow> 0 < b \<Longrightarrow> trem a b = a mod b"
  by (cases "a = 0") (simp_all add: trem_def)

lemma gcd_loop_eq: "0 \<le> a \<Longrightarrow> 0 \<le> b \<Longrightarrow> gcd_loop a b = Some (gcd a b)"
proof (induction "nat b" arbitrary: a b rule: less_induct)
  case less
  show ?case
  proof (cases "b = 0")
    case True
    with less.prems show ?thesis by (subst gcd_loop.simps) simp
  next
    case False
    with less.prems have pos: "0 < b" by simp
    have "gcd_loop b (a mod b) = Some (gcd b (a mod b))"
      using less.hyps[of "a mod b" b] pos by simp
    then show ?thesis using False trem_nonneg[OF less.prems(1) pos]
      by (subst gcd_loop.simps) (simp add: gcd.commute[of b] gcd_red_int[symmetric])
  qed
qed

lemma gcd_js_eq: "gcd_js a b = Some (gcd a b)"
proof -
  have "gcd_js a b = gcd_loop \<bar>a\<bar> \<bar>b\<bar>"
    by (simp add: gcd_js_def abs_if)
  also have "\<dots> = Some (gcd \<bar>a\<bar> \<bar>b\<bar>)"
    by (rule gcd_loop_eq) simp_all
  finally show ?thesis by simp
qed

lemma tdiv_exact: "0 < g \<Longrightarrow> g dvd a \<Longrightarrow> tdiv a g = a div g"
proof -
  assume g: "0 < g" and "g dvd a"
  then obtain k where a: "a = g * k" by (auto simp: dvd_def)
  have "tdiv a g = sgn k * \<bar>k\<bar>"
    using g by (simp add: tdiv_def a sgn_mult abs_mult)
  also have "\<dots> = k" by (simp add: mult_sgn_abs)
  finally show ?thesis using g by (simp add: a)
qed

lemma simplify_pos: "0 < den \<Longrightarrow> simplify num den = Return (num div gcd num den, den div gcd num den)"
proof -
  assume d: "0 < den"
  then have g: "0 < gcd num den" by simp
  have "gcd_js (if num < 0 then - num else num) den = Some (gcd num den)"
    by (simp add: gcd_js_eq)
  then show ?thesis using d g
    by (simp add: simplify_def bigint_div_def tdiv_exact)
qed

lemma simplify_nonzero: "den \<noteq> 0 \<Longrightarrow> simplify num den = Return (Rat.normalize (num, den))"
proof (cases "0 < den")
  case True
  then show ?thesis by (simp add: simplify_pos Rat.normalize_def Let_def)
next
  case False
  assume "den \<noteq> 0"
  with False have neg: "den < 0" by simp
  then have g: "0 < gcd num den" by simp
  have "gcd_js (if - num < 0 then - (- num) else - num) (- den) = Some (gcd num den)"
    by (simp add: gcd_js_eq)
  then have "simplify num den = Return ((- num) div gcd num den, (- den) div gcd num den)"
    using neg g by (simp add: simplify_def bigint_div_def tdiv_exact)
  moreover have "Rat.normalize (num, den) = ((- num) div gcd num den, (- den) div gcd num den)"
    using neg by (simp add: Rat.normalize_def Let_def div_minus_right)
  ultimately show ?thesis by simp
qed

lemma simplify_zero_den:
  "simplify num 0 = (if num = 0 then Throw RangeError_division_by_zero else Return (sgn num, 0))"
proof -
  have "gcd_js (if num < 0 then - num else num) 0 = Some \<bar>num\<bar>"
    by (simp add: gcd_js_eq)
  then show ?thesis
    by (simp add: simplify_def bigint_div_def tdiv_def Let_def sgn_if)
qed

lemma simplify_Fract: "den \<noteq> 0 \<Longrightarrow> simplify num den = Return (quotient_of (Fract num den))"
  by (simp add: simplify_nonzero quotient_of_Fract)

lemma mulFrac_quotient:
  "mulFrac (k, 1) (quotient_of q) = Return (quotient_of (of_int k * q))"
proof -
  obtain a c where q: "quotient_of q = (a, c)" by (cases "quotient_of q")
  then have "0 < c" using quotient_of_denom_pos by simp
  then show ?thesis
    by (simp add: mulFrac_def q simplify_nonzero rat_times_code)
qed

lemma addFrac_quotient:
  "addFrac (quotient_of r) (quotient_of t) = Return (quotient_of (r + t))"
proof -
  obtain a c where r: "quotient_of r = (a, c)" by (cases "quotient_of r")
  obtain b d where t: "quotient_of t = (b, d)" by (cases "quotient_of t")
  have "0 < c" "0 < d" using r t quotient_of_denom_pos by simp_all
  then have "c * d \<noteq> 0" by simp
  then show ?thesis
    by (simp add: addFrac_def r t simplify_nonzero rat_plus_code)
qed

lemma inner_fold:
  "fold (inner_step ps i) js (a, b) =
     (a * prod_list (map (\<lambda>j. - x (ps ! j)) (filter (\<lambda>j. j \<noteq> i) js)),
      b * prod_list (map (\<lambda>j. x (ps ! i) - x (ps ! j)) (filter (\<lambda>j. j \<noteq> i) js)))"
  by (induction js arbitrary: a b) (auto simp: inner_step_def mult.assoc)

lemma inner_loop_eq:
  "inner_loop ps i =
     (prod_list (map (\<lambda>j. - x (ps ! j)) (filter (\<lambda>j. j \<noteq> i) [0..<length ps])),
      prod_list (map (\<lambda>j. x (ps ! i) - x (ps ! j)) (filter (\<lambda>j. j \<noteq> i) [0..<length ps])))"
  by (simp add: inner_loop_def inner_fold)

lemma outer_step_quotient:
  assumes "snd (inner_loop ps i) \<noteq> 0"
  shows "outer_step ps i (quotient_of r) = Return (quotient_of (r + term_at ps i))"
proof -
  obtain num den where nd: "inner_loop ps i = (num, den)" by (cases "inner_loop ps i")
  with assms have "den \<noteq> 0" by simp
  then show ?thesis
    by (simp add: outer_step_def nd simplify_Fract mulFrac_quotient addFrac_quotient term_at_def)
qed

lemma outer_loop_quotient:
  "\<forall>i\<in>set js. snd (inner_loop ps i) \<noteq> 0 \<Longrightarrow>
   outer_loop ps js (quotient_of r) = Return (quotient_of (r + (\<Sum>i\<leftarrow>js. term_at ps i)))"
proof (induction js arbitrary: r)
  case Nil
  then show ?case by simp
next
  case (Cons j js)
  then show ?case by (simp add: outer_step_quotient add.assoc)
qed

lemma filter_index_distinct:
  assumes "distinct (map x ps)" "i < length ps"
  shows "filter (\<lambda>j. j \<noteq> i) [0..<length ps] = filter (\<lambda>j. x (ps ! j) \<noteq> x (ps ! i)) [0..<length ps]"
proof (rule filter_cong[OF refl])
  fix j assume "j \<in> set [0..<length ps]"
  then have j: "j < length ps" by simp
  have "(map x ps ! j = map x ps ! i) = (j = i)"
    by (rule nth_eq_iff_index_eq) (use assms j in simp_all)
  moreover have "map x ps ! j = x (ps ! j)" "map x ps ! i = x (ps ! i)"
    using assms j by simp_all
  ultimately show "(j \<noteq> i) = (x (ps ! j) \<noteq> x (ps ! i))" by simp
qed

lemma map_filter_nth:
  "map (\<lambda>j. f (ps ! j)) (filter (\<lambda>j. P (ps ! j)) [0..<length ps]) = map f (filter P ps)"
proof -
  have "map f (filter P (map ((!) ps) [0..<length ps])) =
        map (\<lambda>j. f (ps ! j)) (filter (\<lambda>j. P (ps ! j)) [0..<length ps])"
    by (simp add: filter_map comp_def)
  then show ?thesis by (simp add: map_nth)
qed

lemma inner_loop_distinct:
  assumes "distinct (map x ps)" "i < length ps"
  shows "inner_loop ps i =
     (prod_list (map (\<lambda>q. - x q) (filter (\<lambda>q. x q \<noteq> x (ps ! i)) ps)),
      prod_list (map (\<lambda>q. x (ps ! i) - x q) (filter (\<lambda>q. x q \<noteq> x (ps ! i)) ps)))"
proof -
  let ?P = "\<lambda>q. x q \<noteq> x (ps ! i)"
  have "map (\<lambda>j. - x (ps ! j)) (filter (\<lambda>j. ?P (ps ! j)) [0..<length ps]) =
        map (\<lambda>q. - x q) (filter ?P ps)"
    by (rule map_filter_nth)
  moreover have "map (\<lambda>j. x (ps ! i) - x (ps ! j)) (filter (\<lambda>j. ?P (ps ! j)) [0..<length ps]) =
        map (\<lambda>q. x (ps ! i) - x q) (filter ?P ps)"
    by (rule map_filter_nth)
  ultimately show ?thesis
    unfolding inner_loop_eq filter_index_distinct[OF assms] by simp
qed

lemma den_nonzero_distinct:
  assumes "distinct (map x ps)" "i < length ps"
  shows "snd (inner_loop ps i) \<noteq> 0"
  by (auto simp: inner_loop_distinct[OF assms] prod_list_zero_iff)

lemma term_at_distinct:
  assumes "distinct (map x ps)" "i < length ps"
  shows "term_at ps i = of_int (y (ps ! i)) * basis_at_zero (mset ps) (ps ! i)"
proof -
  have "prod_list (map f (filter P ps)) = (\<Prod>q\<in>#filter_mset P (mset ps). f q)" for f :: "point \<Rightarrow> int" and P
    by (metis mset_filter mset_map prod_mset_prod_list)
  then show ?thesis
    by (simp add: term_at_def inner_loop_distinct[OF assms] basis_at_zero_def)
qed

lemma sum_terms_distinct:
  assumes "distinct (map x ps)"
  shows "(\<Sum>i\<leftarrow>[0..<length ps]. term_at ps i) = interpolate_at_zero (mset ps)"
proof -
  have "map (term_at ps) [0..<length ps] =
        map (\<lambda>i. (\<lambda>p. of_int (y p) * basis_at_zero (mset ps) p) (ps ! i)) [0..<length ps]"
    using assms by (simp add: term_at_distinct)
  also have "\<dots> = map (\<lambda>p. of_int (y p) * basis_at_zero (mset ps) p) ps"
    using map_filter_nth[where P = "\<lambda>_. True" and ps = ps] by simp
  finally have "(\<Sum>i\<leftarrow>[0..<length ps]. term_at ps i) =
        sum_list (map (\<lambda>p. of_int (y p) * basis_at_zero (mset ps) p) ps)"
    by simp
  also have "\<dots> = interpolate_at_zero (mset ps)"
    unfolding interpolate_at_zero_def by (metis mset_map sum_mset_sum_list)
  finally show ?thesis .
qed

lemma lagrange_distinct:
  assumes "distinct (map x ps)"
  shows "outer_loop ps [0..<length ps] (0, 1) = Return (quotient_of (interpolate_at_zero (mset ps)))"
proof -
  have "outer_loop ps [0..<length ps] (quotient_of 0) =
        Return (quotient_of (0 + (\<Sum>i\<leftarrow>[0..<length ps]. term_at ps i)))"
    by (rule outer_loop_quotient) (simp add: den_nonzero_distinct[OF assms])
  then show ?thesis by (simp add: sum_terms_distinct[OF assms])
qed

subsection \<open>Inputs with a repeated \<open>x\<close>\<close>

lemma simplify_total:
  "simplify num den = Throw RangeError_division_by_zero \<or> (\<exists>f. simplify num den = Return f)"
  by (cases "den = 0") (simp_all add: simplify_zero_den simplify_nonzero)

lemma addFrac_zero_left:
  "addFrac (n1, 0) f = Throw RangeError_division_by_zero \<or> (\<exists>n'. addFrac (n1, 0) f = Return (n', 0))"
  by (cases f) (simp add: addFrac_def simplify_zero_den)

lemma mulFrac_total:
  "mulFrac f g = Throw RangeError_division_by_zero \<or> (\<exists>h. mulFrac f g = Return h)"
proof -
  obtain a b c d where "f = (a, b)" "g = (c, d)" by (cases f; cases g)
  then show ?thesis using simplify_total[of "a * c" "b * d"] by (simp add: mulFrac_def)
qed

lemma addFrac_total:
  "addFrac f g = Throw RangeError_division_by_zero \<or> (\<exists>h. addFrac f g = Return h)"
proof -
  obtain a b c d where "f = (a, b)" "g = (c, d)" by (cases f; cases g)
  then show ?thesis using simplify_total[of "a * d + c * b" "b * d"] by (simp add: addFrac_def)
qed

lemma outer_step_total:
  "outer_step ps i st = Throw RangeError_division_by_zero \<or> (\<exists>f. outer_step ps i st = Return f)"
proof -
  obtain num den where nd: "inner_loop ps i = (num, den)" by (cases "inner_loop ps i")
  show ?thesis
    using simplify_total[of num den]
  proof
    assume "simplify num den = Throw RangeError_division_by_zero"
    then show ?thesis by (simp add: outer_step_def nd)
  next
    assume "\<exists>f. simplify num den = Return f"
    then obtain li where li: "simplify num den = Return li" ..
    show ?thesis
      using mulFrac_total[of "(y (ps ! i), 1)" li]
    proof
      assume "mulFrac (y (ps ! i), 1) li = Throw RangeError_division_by_zero"
      then show ?thesis by (simp add: outer_step_def nd li)
    next
      assume "\<exists>h. mulFrac (y (ps ! i), 1) li = Return h"
      then obtain t where "mulFrac (y (ps ! i), 1) li = Return t" ..
      then show ?thesis using addFrac_total[of st t] by (simp add: outer_step_def nd li)
    qed
  qed
qed

lemma outer_step_zero_state:
  "outer_step ps i (n1, 0) = Throw RangeError_division_by_zero \<or>
   (\<exists>n'. outer_step ps i (n1, 0) = Return (n', 0))"
proof -
  obtain num den where nd: "inner_loop ps i = (num, den)" by (cases "inner_loop ps i")
  show ?thesis
    using simplify_total[of num den]
  proof
    assume "simplify num den = Throw RangeError_division_by_zero"
    then show ?thesis by (simp add: outer_step_def nd)
  next
    assume "\<exists>f. simplify num den = Return f"
    then obtain li where li: "simplify num den = Return li" ..
    show ?thesis
      using mulFrac_total[of "(y (ps ! i), 1)" li]
    proof
      assume "mulFrac (y (ps ! i), 1) li = Throw RangeError_division_by_zero"
      then show ?thesis by (simp add: outer_step_def nd li)
    next
      assume "\<exists>h. mulFrac (y (ps ! i), 1) li = Return h"
      then obtain t where "mulFrac (y (ps ! i), 1) li = Return t" ..
      then show ?thesis using addFrac_zero_left[of n1 t] by (simp add: outer_step_def nd li)
    qed
  qed
qed

lemma outer_step_zero_den:
  assumes "snd (inner_loop ps i) = 0"
  shows "outer_step ps i (n1, d1) = Throw RangeError_division_by_zero \<or>
         (d1 \<noteq> 0 \<and> (\<exists>n'. outer_step ps i (n1, d1) = Return (n', 0)))"
proof -
  obtain num where nd: "inner_loop ps i = (num, 0)" using assms by (cases "inner_loop ps i") simp
  show ?thesis
  proof (cases "num = 0 \<or> y (ps ! i) = 0 \<or> d1 = 0")
    case True
    then show ?thesis
      by (auto simp: outer_step_def nd simplify_zero_den mulFrac_def addFrac_def sgn_if)
  next
    case False
    then show ?thesis
      by (simp add: outer_step_def nd simplify_zero_den mulFrac_def addFrac_def sgn_if)
  qed
qed

lemma outer_loop_zero_state:
  "\<exists>i\<in>set js. snd (inner_loop ps i) = 0 \<Longrightarrow>
   outer_loop ps js (n, 0) = Throw RangeError_division_by_zero"
proof (induction js arbitrary: n)
  case Nil
  then show ?case by simp
next
  case (Cons j js)
  show ?case
    using outer_step_zero_state[of ps j n]
  proof
    assume "outer_step ps j (n, 0) = Throw RangeError_division_by_zero"
    then show ?thesis by simp
  next
    assume "\<exists>n'. outer_step ps j (n, 0) = Return (n', 0)"
    then obtain n' where step: "outer_step ps j (n, 0) = Return (n', 0)" ..
    then have "snd (inner_loop ps j) \<noteq> 0"
      using outer_step_zero_den[of ps j n 0] by auto
    with Cons.prems have "\<exists>i\<in>set js. snd (inner_loop ps i) = 0" by auto
    then show ?thesis using Cons.IH step by simp
  qed
qed

lemma outer_loop_two_zero_dens:
  assumes "distinct js" "p \<in> set js" "q \<in> set js" "p \<noteq> q"
    and "snd (inner_loop ps p) = 0" "snd (inner_loop ps q) = 0"
  shows "outer_loop ps js st = Throw RangeError_division_by_zero"
  using assms(1-3)
proof (induction js arbitrary: st)
  case Nil
  then show ?case by simp
next
  case (Cons j js)
  obtain n1 d1 where st: "st = (n1, d1)" by (cases st)
  show ?case
  proof (cases "snd (inner_loop ps j) = 0")
    case True
    have other: "\<exists>i\<in>set js. snd (inner_loop ps i) = 0"
      using Cons.prems assms(4-6) by (cases "p = j") auto
    show ?thesis
      using outer_step_zero_den[OF True, of n1 d1] outer_loop_zero_state[OF other]
      by (auto simp: st)
  next
    case False
    then have "p \<noteq> j" "q \<noteq> j" using assms(5,6) by auto
    then have in_js: "distinct js" "p \<in> set js" "q \<in> set js" using Cons.prems by auto
    show ?thesis
      using outer_step_total[of ps j st] Cons.IH[OF in_js] by auto
  qed
qed

lemma zero_den_duplicate:
  assumes "i < length ps" "j < length ps" "i \<noteq> j" "x (ps ! i) = x (ps ! j)"
  shows "snd (inner_loop ps i) = 0"
proof -
  have "j \<in> set (filter (\<lambda>j. j \<noteq> i) [0..<length ps])" using assms by simp
  then have "x (ps ! i) - x (ps ! j) \<in>
      set (map (\<lambda>j. x (ps ! i) - x (ps ! j)) (filter (\<lambda>j. j \<noteq> i) [0..<length ps]))"
    unfolding set_map by (rule imageI)
  then show ?thesis using assms(4) by (simp add: inner_loop_eq prod_list_zero_iff)
qed

lemma outer_loop_duplicates:
  assumes "\<not> distinct (map x ps)"
  shows "outer_loop ps [0..<length ps] st = Throw RangeError_division_by_zero"
proof -
  from assms obtain i j where ij: "i < length ps" "j < length ps" "i \<noteq> j"
      "map x ps ! i = map x ps ! j"
    by (auto simp: distinct_conv_nth)
  then have eq: "x (ps ! i) = x (ps ! j)" by simp
  show ?thesis
  proof (rule outer_loop_two_zero_dens[where p = i and q = j])
    show "snd (inner_loop ps i) = 0" using ij(1-3) eq by (rule zero_den_duplicate)
    show "snd (inner_loop ps j) = 0" using ij(2,1) ij(3)[symmetric] eq[symmetric] by (rule zero_den_duplicate)
  qed (use ij in simp_all)
qed

lemma normal_form_quotient_of: "normal_form (quotient_of r)"
proof -
  obtain a c where q: "quotient_of r = (a, c)" by (cases "quotient_of r")
  have "0 < c" using q by (rule quotient_of_denom_pos)
  moreover have "coprime a c" using q by (rule quotient_of_coprime)
  moreover have "c = 1" if "a = 0"
  proof -
    have "r = Fract a c" using q by (rule quotient_of_div[unfolded Fract_of_int_quotient[symmetric]])
    then have "r = 0" using that by (simp add: rat_number_collapse)
    then show ?thesis using q by simp
  qed
  ultimately show ?thesis by (simp add: normal_form_def q coprime_iff_gcd_eq_1[symmetric])
qed

lemma outer_loop_positive_den:
  assumes "outer_loop ps [0..<length ps] (0, 1) = Return (n, d)"
  shows "0 < d"
proof (cases "distinct (map x ps)")
  case True
  then have "(n, d) = quotient_of (interpolate_at_zero (mset ps))"
    using assms by (simp add: lagrange_distinct)
  then show ?thesis using quotient_of_denom_pos by metis
next
  case False
  then show ?thesis using assms by (simp add: outer_loop_duplicates)
qed

section \<open>Digits\<close>

lemma alnum_digit_code:
  "alnum_digit c =
     (if 48 \<le> c \<and> c \<le> 57 then Some (int c - 48)
      else if 97 \<le> c \<and> c \<le> 122 then Some (int c - 87)
      else if 65 \<le> c \<and> c \<le> 90 then Some (int c - 55)
      else None)"
proof -
  have d: "c \<in> set (js_string ''0123456789'') \<longleftrightarrow> 48 \<le> c \<and> c \<le> 57"
    by (simp add: js_string_def) arith
  have l: "c \<in> set (js_string ''abcdefghijklmnopqrstuvwxyz'') \<longleftrightarrow> 97 \<le> c \<and> c \<le> 122"
    by (simp add: js_string_def) arith
  have u: "c \<in> set (js_string ''ABCDEFGHIJKLMNOPQRSTUVWXYZ'') \<longleftrightarrow> 65 \<le> c \<and> c \<le> 90"
    by (simp add: js_string_def) arith
  show ?thesis unfolding alnum_digit_def d l u by simp
qed

lemma alnum_digit_range: "alnum_digit c = Some d \<Longrightarrow> 0 \<le> d \<and> d \<le> 35"
  unfolding alnum_digit_code by (auto split: if_splits)

lemma lower_alnum:
  "alnum_digit c = Some d \<Longrightarrow> \<exists>c'. toLowerCase_cp c = [c'] \<and> digit_of_char c' = Some d"
  unfolding alnum_digit_code toLowerCase_cp_def digit_of_char_def
  by (auto split: if_splits)

lemma lower_not_alnum:
  "alnum_digit c = None \<Longrightarrow> c \<noteq> 8490 \<Longrightarrow> \<exists>c'\<in>set (toLowerCase_cp c). digit_of_char c' = None"
  unfolding alnum_digit_code toLowerCase_cp_def digit_of_char_def
  by (auto split: if_splits)

lemma modulo32_small: "0 \<le> v \<Longrightarrow> v < 2 ^ 31 \<Longrightarrow> modulo32 v = v"
  by (simp add: modulo32_def)

lemma parseInt_char_cases: "parseInt_char c radix = NaN \<or> (\<exists>d. parseInt_char c radix = Integer d)"
  by (cases "digit_of_char c") (simp_all add: parseInt_char_def Let_def)

lemma parseInt_no_digit: "digit_of_char c = None \<Longrightarrow> parseInt_char c radix = NaN"
  by (simp add: parseInt_char_def Let_def)

lemma parseInt_valid:
  assumes "2 \<le> base" "base \<le> 36" "digit_of_char c = Some d" "d < base"
  shows "parseInt_char c (Integer base) = Integer d"
proof -
  have "modulo32 base = base" using assms by (simp add: modulo32_small)
  then show ?thesis using assms by (simp add: parseInt_char_def)
qed

lemma parseInt_large_digit:
  assumes "1 \<le> base" "digit_of_char c = Some d" "base \<le> d" "d \<le> 35"
  shows "parseInt_char c (Integer base) = NaN"
proof -
  have "modulo32 base = base" using assms by (simp add: modulo32_small)
  then show ?thesis using assms by (simp add: parseInt_char_def Let_def)
qed

lemma lower_valid:
  assumes "2 \<le> base" "base \<le> 36" "alnum_digit c = Some d" "d < base"
  shows "map (\<lambda>c. parseInt_char c (Integer base)) (toLowerCase_cp c) = [Integer d]"
proof -
  from lower_alnum[OF assms(3)] obtain c' where
    "toLowerCase_cp c = [c']" "digit_of_char c' = Some d" by blast
  then show ?thesis using assms by (simp add: parseInt_valid)
qed

lemma lower_invalid:
  assumes "1 \<le> base" "invalid_digit base c"
  shows "\<exists>c'\<in>set (toLowerCase_cp c). parseInt_char c' (Integer base) = NaN"
proof (cases "alnum_digit c")
  case None
  then have "c \<noteq> 8490" using assms(2) by (simp add: invalid_digit_def)
  with None show ?thesis using lower_not_alnum parseInt_no_digit by blast
next
  case (Some d)
  then have d: "base \<le> d" "d \<le> 35"
    using assms(2) alnum_digit_range by (simp_all add: invalid_digit_def)
  from lower_alnum[OF Some] obtain c' where
    c': "toLowerCase_cp c = [c']" "digit_of_char c' = Some d" by blast
  then have "parseInt_char c' (Integer base) = NaN"
    using assms(1) d by (simp add: parseInt_large_digit)
  then show ?thesis using c' by simp
qed

lemma lower_invalid_huge:
  assumes "36 \<le> base" "invalid_digit base c"
  shows "\<exists>c'\<in>set (toLowerCase_cp c). digit_of_char c' = None"
proof (cases "alnum_digit c")
  case None
  then have "c \<noteq> 8490" using assms(2) by (simp add: invalid_digit_def)
  with None show ?thesis by (rule lower_not_alnum)
next
  case (Some d)
  then have "base \<le> d" "d \<le> 35"
    using assms(2) alnum_digit_range by (simp_all add: invalid_digit_def)
  with assms(1) show ?thesis by simp
qed

lemma positional_value_Cons:
  "positional_value base (d # ds) = d * base ^ length ds + positional_value base ds"
proof -
  have "[0..<Suc (length ds)] = 0 # map Suc [0..<length ds]"
    by (simp only: map_Suc_upt upt_conv_Cons[OF zero_less_Suc])
  then have "map (\<lambda>i. (d # ds) ! i * base ^ (length (d # ds) - Suc i)) [0..<length (d # ds)] =
      d * base ^ length ds # map (\<lambda>i. ds ! i * base ^ (length ds - Suc i)) [0..<length ds]"
    by (simp add: comp_def)
  then show ?thesis unfolding positional_value_def by simp
qed

lemma decode_loop_valid:
  "map (\<lambda>c. parseInt_char c (parseInt_number base)) cs = map Integer ds \<Longrightarrow>
   decode_loop base bigBase cs acc =
     Return (acc * bigBase ^ length ds + positional_value bigBase ds)"
proof (induction cs arbitrary: acc ds)
  case Nil
  then show ?case by (simp add: positional_value_def)
next
  case (Cons c cs)
  then obtain d ds' where ds: "ds = d # ds'" by (cases ds) auto
  with Cons.prems have c: "parseInt_char c (parseInt_number base) = Integer d"
    and rest: "map (\<lambda>c. parseInt_char c (parseInt_number base)) cs = map Integer ds'"
    by simp_all
  show ?case
    by (simp add: ds c Cons.IH[OF rest] positional_value_Cons algebra_simps)
qed

lemma decode_loop_invalid:
  "\<exists>c\<in>set cs. parseInt_char c (parseInt_number base) = NaN \<Longrightarrow>
   decode_loop base bigBase cs acc = Throw RangeError_not_an_integer"
proof (induction cs arbitrary: acc)
  case Nil
  then show ?case by simp
next
  case (Cons c cs)
  show ?case
    using parseInt_char_cases[of c "parseInt_number base"]
  proof
    assume "parseInt_char c (parseInt_number base) = NaN"
    then show ?thesis by simp
  next
    assume "\<exists>d. parseInt_char c (parseInt_number base) = Integer d"
    then obtain d where d: "parseInt_char c (parseInt_number base) = Integer d" ..
    with Cons.prems have "\<exists>c\<in>set cs. parseInt_char c (parseInt_number base) = NaN" by auto
    then show ?thesis using d by (simp add: Cons.IH)
  qed
qed

lemma decode_loop_total:
  "decode_loop base bigBase cs acc = Throw RangeError_not_an_integer \<or>
   (\<exists>r. decode_loop base bigBase cs acc = Return r)"
proof (induction cs arbitrary: acc)
  case Nil
  then show ?case by simp
next
  case (Cons c cs)
  show ?case
    using parseInt_char_cases[of c "parseInt_number base"]
  proof
    assume "parseInt_char c (parseInt_number base) = NaN"
    then show ?thesis by simp
  next
    assume "\<exists>d. parseInt_char c (parseInt_number base) = Integer d"
    then obtain d where "parseInt_char c (parseInt_number base) = Integer d" ..
    then show ?thesis using Cons.IH by simp
  qed
qed

lemma lower_string_valid:
  assumes "2 \<le> base" "base \<le> 36"
  shows "map alnum_digit digits = map Some ds \<Longrightarrow> list_all (\<lambda>d. d < base) ds \<Longrightarrow>
    map (\<lambda>c. parseInt_char c (Integer base)) (toLowerCase digits) = map Integer ds"
proof (induction digits arbitrary: ds)
  case Nil
  then show ?case by (simp add: toLowerCase_def)
next
  case (Cons c cs)
  then obtain d ds' where ds: "ds = d # ds'" by (cases ds) auto
  with Cons.prems have "alnum_digit c = Some d" "d < base" by simp_all
  then have "map (\<lambda>c. parseInt_char c (Integer base)) (toLowerCase_cp c) = [Integer d]"
    using assms by (simp add: lower_valid)
  moreover have "map (\<lambda>c. parseInt_char c (Integer base)) (toLowerCase cs) = map Integer ds'"
    using Cons.IH[of ds'] Cons.prems ds by simp
  ultimately show ?case by (simp add: ds toLowerCase_def)
qed

section \<open>Fractions in normal form\<close>

lemma simplify_normal:
  "den \<noteq> 0 \<Longrightarrow> \<exists>f. simplify num den = Return f \<and> normal_form f"
  by (simp add: simplify_Fract normal_form_quotient_of)

lemma outer_loop_append:
  "outer_loop ps (js @ ks) st = bind_result (outer_loop ps js st) (outer_loop ps ks)"
proof (induction js arbitrary: st)
  case Nil
  then show ?case by simp
next
  case (Cons j js)
  then show ?case by (cases "outer_step ps j st") simp_all
qed

lemma outer_loop_prefix:
  assumes "distinct (map x ps)" "i \<le> length ps"
  shows "outer_loop ps [0..<i] (0, 1) = Return (quotient_of (\<Sum>j\<leftarrow>[0..<i]. term_at ps j))"
proof -
  have "outer_loop ps [0..<i] (quotient_of 0) =
        Return (quotient_of (0 + (\<Sum>j\<leftarrow>[0..<i]. term_at ps j)))"
    by (rule outer_loop_quotient) (use assms in \<open>simp add: den_nonzero_distinct\<close>)
  then show ?thesis by simp
qed

lemma outer_loop_total:
  "outer_loop ps js st = Throw RangeError_division_by_zero \<or> (\<exists>f. outer_loop ps js st = Return f)"
proof (induction js arbitrary: st)
  case Nil
  then show ?case by simp
next
  case (Cons j js)
  show ?case
    using outer_step_total[of ps j st]
  proof
    assume "outer_step ps j st = Throw RangeError_division_by_zero"
    then show ?thesis by simp
  next
    assume "\<exists>f. outer_step ps j st = Return f"
    then obtain f where "outer_step ps j st = Return f" ..
    then show ?thesis using Cons.IH[of f] by simp
  qed
qed

lemmas decode_eval =
  decodeValue_def toLowerCase_def toLowerCase_cp_def parseInt_char_def digit_of_char_def
  modulo32_def js_string_def

section \<open>The claims about \<^verbatim>\<open>decodeValue\<close>\<close>

text \<open>
  C1: for every base from 2 to 36 and every digit string whose characters are
  alphanumeric with digit values \<open>ds\<close> below the base, \<^verbatim>\<open>decodeValue\<close> returns the
  positional interpretation of the string: the sum, left to right, of each digit value
  times the base to the number of characters after it, over unbounded integers.
\<close>

theorem decodeValue_positional:
  assumes "2 \<le> base" and "base \<le> 36"
    and "map alnum_digit digits = map Some ds" and "\<forall>d\<in>set ds. d < base"
  shows "decodeValue (Integer base) digits = Return (positional_value base ds)"
proof -
  have "list_all (\<lambda>d. d < base) ds" using assms(4) by (simp add: list_all_iff)
  then have "map (\<lambda>c. parseInt_char c (parseInt_number (Integer base))) (toLowerCase digits) =
      map Integer ds"
    using lower_string_valid[OF assms(1,2,3)] by simp
  then show ?thesis by (simp add: decodeValue_def decode_loop_valid)
qed

text \<open>The hexadecimal string \<^verbatim>\<open>fF\<close> decodes to 15 * 16 + 15 = 255.\<close>

theorem decodeValue_positional_witness:
  "(2::int) \<le> 16 \<and> (16::int) \<le> 36 \<and>
   map alnum_digit (js_string ''fF'') = map Some [15, 15] \<and>
   list_all (\<lambda>d. d < 16) [15, 15 :: int] \<and>
   decodeValue (Integer 16) (js_string ''fF'') = Return (positional_value 16 [15, 15]) \<and>
   positional_value 16 [15, 15] = 255"
proof -
  have digits: "map alnum_digit (js_string ''fF'') = map Some [15, 15]"
    by (simp add: alnum_digit_def js_string_def)
  have below: "\<forall>d\<in>set [15, 15 :: int]. d < 16" by simp
  have "decodeValue (Integer 16) (js_string ''fF'') = Return (positional_value 16 [15, 15])"
    using decodeValue_positional[of 16 "js_string ''fF''" "[15, 15]"] digits below by simp
  moreover have "positional_value 16 [15, 15] = 255"
    by (simp add: positional_value_def)
  moreover have "list_all (\<lambda>d. d < 16) [15, 15 :: int]" by simp
  ultimately show ?thesis using digits by simp
qed

text \<open>
  C7, as the code has it: for every integer base of at least 1 (of either string form), a
  digit string with a character that is not alphanumeric and not the KELVIN SIGN, or an
  alphanumeric character whose digit value is not below the base, makes \<^verbatim>\<open>decodeValue\<close>
  throw the RangeError of \<^verbatim>\<open>BigInt(NaN)\<close>; no value is returned. The code has no error
  class of its own for a bad digit.
\<close>

theorem decodeValue_invalid_digit:
  assumes "1 \<le> base" and "\<exists>c\<in>set digits. invalid_digit base c"
  shows "decodeValue (Integer base) digits = Throw RangeError_not_an_integer \<and>
         (10 ^ 21 \<le> base \<longrightarrow>
            decodeValue (Exponential base d) digits = Throw RangeError_not_an_integer)"
proof (intro conjI impI)
  from assms(2) obtain c where c: "c \<in> set digits" "invalid_digit base c" ..
  have inside: "c' \<in> set (toLowerCase digits)" if "c' \<in> set (toLowerCase_cp c)" for c'
    using that c(1) by (auto simp: toLowerCase_def)
  from lower_invalid[OF assms(1) c(2)] inside
  have "\<exists>c'\<in>set (toLowerCase digits). parseInt_char c' (parseInt_number (Integer base)) = NaN"
    by auto
  then show "decodeValue (Integer base) digits = Throw RangeError_not_an_integer"
    by (simp add: decodeValue_def decode_loop_invalid)
  assume "10 ^ 21 \<le> base"
  then have "36 \<le> base" by simp
  from lower_invalid_huge[OF this c(2)] inside
  have "\<exists>c'\<in>set (toLowerCase digits).
      parseInt_char c' (parseInt_number (Exponential base d)) = NaN"
    using parseInt_no_digit by blast
  then show "decodeValue (Exponential base d) digits = Throw RangeError_not_an_integer"
    by (simp add: decodeValue_def decode_loop_invalid)
qed

text \<open>
  In base 10 the letter of \<^verbatim>\<open>1a\<close> is no digit; with the base \<^verbatim>\<open>5e21\<close>, read as radix 5,
  the sign of \<^verbatim>\<open>3-\<close> is none.
\<close>

theorem decodeValue_invalid_digit_witness:
  "(1::int) \<le> 10 \<and> (\<exists>c\<in>set (js_string ''1a''). invalid_digit 10 c) \<and>
   decodeValue (Integer 10) (js_string ''1a'') = Throw RangeError_not_an_integer \<and>
   (10::int) ^ 21 \<le> 5 * 10 ^ 21 \<and>
   (\<exists>c\<in>set (js_string ''3-''). invalid_digit (5 * 10 ^ 21) c) \<and>
   decodeValue (Exponential (5 * 10 ^ 21) 5) (js_string ''3-'') =
     Throw RangeError_not_an_integer"
proof -
  have bad: "\<exists>c\<in>set (js_string ''1a''). invalid_digit 10 c"
    by (simp add: invalid_digit_def alnum_digit_def js_string_def)
  have small: "decodeValue (Integer 10) (js_string ''1a'') = Throw RangeError_not_an_integer"
    using bad decodeValue_invalid_digit[of 10 "js_string ''1a''"] by simp
  have bad': "\<exists>c\<in>set (js_string ''3-''). invalid_digit (5 * 10 ^ 21) c"
    by (simp add: invalid_digit_def alnum_digit_def js_string_def)
  have "decodeValue (Exponential (5 * 10 ^ 21) 5) (js_string ''3-'') =
      Throw RangeError_not_an_integer"
    using bad' decodeValue_invalid_digit[of "5 * 10 ^ 21" "js_string ''3-''" 5] by simp
  then show ?thesis using bad small bad' by simp
qed

text \<open>
  C7 as stated, for every base and every character, fails twice. At base 0 \<^verbatim>\<open>parseInt\<close>
  reads the radix 0 as 10, so the digit 5, which is not below the base, is accepted and 5
  is returned. At base 36 the KELVIN SIGN, which is not alphanumeric, is lower-cased to
  \<^verbatim>\<open>k\<close> and 20 is returned.
\<close>

theorem decodeValue_invalid_digit_counterexample:
  "alnum_digit (of_char CHR ''5'') = Some 5 \<and> (0::int) \<le> 5 \<and>
   decodeValue (Integer 0) (js_string ''5'') = Return 5 \<and>
   alnum_digit 8490 = None \<and> decodeValue (Integer 36) [8490] = Return 20"
  by (simp add: alnum_digit_def decode_eval)

text \<open>
  C10, as the code has it: for every integer-valued base (of either string form),
  \<^verbatim>\<open>decodeValue\<close> applied to the empty digit string returns 0 and raises no error,
  because the body of the loop never runs.
\<close>

theorem decodeValue_empty:
  "decodeValue (Integer v) [] = Return 0 \<and> decodeValue (Exponential v d) [] = Return 0"
  by (simp add: decodeValue_def toLowerCase_def)

text \<open>
  C10 as stated, for every base, fails at \<^verbatim>\<open>NaN\<close>, the base that \<^verbatim>\<open>parseInt\<close> gives for
  a missing or non-numeric base entry: \<^verbatim>\<open>BigInt(base)\<close> in the first statement throws
  before the loop is reached.
\<close>

theorem decodeValue_empty_counterexample:
  "decodeValue NaN [] = Throw RangeError_not_an_integer"
  by (simp add: decodeValue_def)

section \<open>The claims about \<^verbatim>\<open>lagrangeInterpolationAtZero\<close>\<close>

text \<open>
  C2, as the code has it: on the points (1,4), (2,7), (3,12) the function returns exactly
  3, without a warning. The three points lie on \<open>x\<^sup>2 + 3\<close>; the polynomial
  \<open>x\<^sup>2 + x + 2\<close> takes the values 4, 8, 14 at 1, 2, 3.
\<close>

theorem lagrange_known_value:
  "lagrangeInterpolationAtZero [\<lparr>x = 1, y = 4\<rparr>, \<lparr>x = 2, y = 7\<rparr>, \<lparr>x = 3, y = 12\<rparr>] =
     Return \<lparr>warned = False, val = 3\<rparr>"
  by code_simp

text \<open>C2 as stated fails: the value returned on these three points is not 2.\<close>

theorem lagrange_known_value_counterexample:
  "lagrangeInterpolationAtZero [\<lparr>x = 1, y = 4\<rparr>, \<lparr>x = 2, y = 7\<rparr>, \<lparr>x = 3, y = 12\<rparr>] \<noteq>
     Return \<lparr>warned = False, val = 2\<rparr> \<and>
   lagrangeInterpolationAtZero [\<lparr>x = 1, y = 4\<rparr>, \<lparr>x = 2, y = 7\<rparr>, \<lparr>x = 3, y = 12\<rparr>] \<noteq>
     Return \<lparr>warned = True, val = 2\<rparr>"
  by code_simp

text \<open>
  C3: for every list of points with pairwise distinct \<open>x\<close> and every permutation of it,
  the function gives the same outcome on the permuted list as on the original one.
\<close>

theorem lagrange_permutation_invariant:
  assumes "distinct (map x ps)" and "mset qs = mset ps"
  shows "lagrangeInterpolationAtZero qs = lagrangeInterpolationAtZero ps"
proof -
  have "mset (map x qs) = mset (map x ps)" using assms(2) by (metis mset_map)
  then have "distinct (map x qs)" using assms(1) by (metis mset_eq_imp_distinct_iff)
  then show ?thesis
    using assms by (simp add: lagrangeInterpolationAtZero_def lagrange_distinct)
qed

theorem lagrange_permutation_invariant_witness:
  "distinct (map x [\<lparr>x = 1, y = 4\<rparr>, \<lparr>x = 2, y = 7\<rparr>, \<lparr>x = 3, y = 12\<rparr>]) \<and>
   mset [\<lparr>x = 3, y = 12\<rparr>, \<lparr>x = 1, y = 4\<rparr>, \<lparr>x = 2, y = 7\<rparr>] =
     mset [\<lparr>x = 1, y = 4\<rparr>, \<lparr>x = 2, y = 7\<rparr>, \<lparr>x = 3, y = 12\<rparr>] \<and>
   lagrangeInterpolationAtZero [\<lparr>x = 3, y = 12\<rparr>, \<lparr>x = 1, y = 4\<rparr>, \<lparr>x = 2, y = 7\<rparr>] =
     lagrangeInterpolationAtZero [\<lparr>x = 1, y = 4\<rparr>, \<lparr>x = 2, y = 7\<rparr>, \<lparr>x = 3, y = 12\<rparr>]"
proof -
  have d: "distinct (map x [\<lparr>x = 1, y = 4\<rparr>, \<lparr>x = 2, y = 7\<rparr>, \<lparr>x = 3, y = 12\<rparr>])"
    by simp
  have p: "mset [\<lparr>x = 3, y = 12\<rparr>, \<lparr>x = 1, y = 4\<rparr>, \<lparr>x = 2, y = 7\<rparr>] =
      mset [\<lparr>x = 1, y = 4\<rparr>, \<lparr>x = 2, y = 7\<rparr>, \<lparr>x = 3, y = 12\<rparr>]"
    by (simp add: add_mset_commute)
  show ?thesis
    using d p lagrange_permutation_invariant[OF d p] by (intro conjI)
qed

text \<open>
  C4, as the code has it: whenever the fraction accumulated by the loop has a denominator
  other than 1 and -1, the function calls \<^verbatim>\<open>console.warn\<close> and returns the numerator
  divided by the denominator, rounded towards zero; it raises no error.
\<close>

theorem lagrange_non_integral:
  assumes "outer_loop ps [0..<length ps] (0, 1) = Return (n, d)" and "d \<noteq> 1" and "d \<noteq> - 1"
  shows "lagrangeInterpolationAtZero ps = Return \<lparr>warned = True, val = tdiv n d\<rparr>"
  using assms outer_loop_positive_den[OF assms(1)]
  by (simp add: lagrangeInterpolationAtZero_def finish_def bigint_div_def)

theorem lagrange_non_integral_witness:
  "outer_loop [\<lparr>x = 2, y = 1\<rparr>, \<lparr>x = 5, y = 9\<rparr>] [0..<length [\<lparr>x = 2, y = 1\<rparr>, \<lparr>x = 5, y = 9\<rparr>]] (0, 1) =
     Return (- 13, 3) \<and> (3::int) \<noteq> 1 \<and> (3::int) \<noteq> - 1 \<and>
   lagrangeInterpolationAtZero [\<lparr>x = 2, y = 1\<rparr>, \<lparr>x = 5, y = 9\<rparr>] =
     Return \<lparr>warned = True, val = tdiv (- 13) 3\<rparr> \<and> tdiv (- 13) 3 = - 4"
proof -
  have loop: "outer_loop [\<lparr>x = 2, y = 1\<rparr>, \<lparr>x = 5, y = 9\<rparr>]
      [0..<length [\<lparr>x = 2, y = 1\<rparr>, \<lparr>x = 5, y = 9\<rparr>]] (0, 1) = Return (- 13, 3)"
    by code_simp
  have "tdiv (- 13) 3 = - 4" by (simp add: tdiv_def)
  then show ?thesis
    using loop lagrange_non_integral[OF loop] by simp
qed

text \<open>
  C4 as stated fails on the points (1,0), (3,1): the accumulated fraction is -1/2, and the
  function returns 0 after a warning instead of raising an error.
\<close>

theorem lagrange_non_integral_counterexample:
  "outer_loop [\<lparr>x = 1, y = 0\<rparr>, \<lparr>x = 3, y = 1\<rparr>] [0..<2] (0, 1) = Return (- 1, 2) \<and>
   lagrangeInterpolationAtZero [\<lparr>x = 1, y = 0\<rparr>, \<lparr>x = 3, y = 1\<rparr>] =
     Return \<lparr>warned = True, val = 0\<rparr>"
  by code_simp

text \<open>
  C5, as the code has it: for every list with two points of the same \<open>x\<close>, the function
  throws the RangeError of a BigInt division by zero; it has no error of its own for a
  repeated share index.
\<close>

theorem lagrange_duplicate_x:
  "\<not> distinct (map x ps) \<Longrightarrow>
   lagrangeInterpolationAtZero ps = Throw RangeError_division_by_zero"
  by (simp add: lagrangeInterpolationAtZero_def outer_loop_duplicates)

theorem lagrange_duplicate_x_witness:
  "\<not> distinct (map x [\<lparr>x = 1, y = 3\<rparr>, \<lparr>x = 4, y = 0\<rparr>, \<lparr>x = 1, y = 7\<rparr>]) \<and>
   lagrangeInterpolationAtZero [\<lparr>x = 1, y = 3\<rparr>, \<lparr>x = 4, y = 0\<rparr>, \<lparr>x = 1, y = 7\<rparr>] =
     Throw RangeError_division_by_zero"
proof -
  have "\<not> distinct (map x [\<lparr>x = 1, y = 3\<rparr>, \<lparr>x = 4, y = 0\<rparr>, \<lparr>x = 1, y = 7\<rparr>])"
    by simp
  then show ?thesis
    using lagrange_duplicate_x[of "[\<lparr>x = 1, y = 3\<rparr>, \<lparr>x = 4, y = 0\<rparr>, \<lparr>x = 1, y = 7\<rparr>]"]
    by (intro conjI)
qed

text \<open>
  C5 as stated fails on the points (2,5), (2,9): the call ends in the raw division by
  zero that the claim rules out.
\<close>

theorem lagrange_duplicate_x_counterexample:
  "lagrangeInterpolationAtZero [\<lparr>x = 2, y = 5\<rparr>, \<lparr>x = 2, y = 9\<rparr>] =
     Throw RangeError_division_by_zero"
  by code_simp

text \<open>
  C6: every fraction that \<^verbatim>\<open>simplify\<close>, \<^verbatim>\<open>addFrac\<close> or \<^verbatim>\<open>mulFrac\<close> produces from
  nonzero denominators is in normal form: its denominator is positive, the gcd of the
  absolute numerator and the denominator is 1, and zero is the pair \<open>(0, 1)\<close>. During an
  evaluation on points with pairwise distinct \<open>x\<close> this holds after every rational
  operation of every iteration \<open>i\<close>: for the running result before the iteration, the
  basis fraction, the term and the new running result.
\<close>

theorem fraction_normal_form:
  "(den \<noteq> 0 \<longrightarrow> (\<exists>f. simplify num den = Return f \<and> normal_form f)) \<and>
   (d1 \<noteq> 0 \<and> d2 \<noteq> 0 \<longrightarrow>
      (\<exists>f. addFrac (n1, d1) (n2, d2) = Return f \<and> normal_form f) \<and>
      (\<exists>f. mulFrac (n1, d1) (n2, d2) = Return f \<and> normal_form f)) \<and>
   (distinct (map x ps) \<and> i < length ps \<longrightarrow>
      (\<exists>res li term res'.
         outer_loop ps [0..<i] (0, 1) = Return res \<and> normal_form res \<and>
         simplify (fst (inner_loop ps i)) (snd (inner_loop ps i)) = Return li \<and> normal_form li \<and>
         mulFrac (y (ps ! i), 1) li = Return term \<and> normal_form term \<and>
         addFrac res term = Return res' \<and> normal_form res' \<and>
         outer_loop ps [0..<Suc i] (0, 1) = Return res'))"
proof (intro conjI impI)
  assume "den \<noteq> 0"
  then show "\<exists>f. simplify num den = Return f \<and> normal_form f"
    by (rule simplify_normal)
next
  assume "d1 \<noteq> 0 \<and> d2 \<noteq> 0"
  then have nz: "d1 * d2 \<noteq> 0" by simp
  show "\<exists>f. addFrac (n1, d1) (n2, d2) = Return f \<and> normal_form f"
    using simplify_normal[OF nz] by (simp add: addFrac_def)
  show "\<exists>f. mulFrac (n1, d1) (n2, d2) = Return f \<and> normal_form f"
    using simplify_normal[OF nz] by (simp add: mulFrac_def)
next
  assume "distinct (map x ps) \<and> i < length ps"
  then have d: "distinct (map x ps)" and i: "i < length ps" by simp_all
  define r where "r = (\<Sum>j\<leftarrow>[0..<i]. term_at ps j)"
  define b where "b = Fract (fst (inner_loop ps i)) (snd (inner_loop ps i))"
  have den: "snd (inner_loop ps i) \<noteq> 0" using d i by (rule den_nonzero_distinct)
  have res: "outer_loop ps [0..<i] (0, 1) = Return (quotient_of r)"
    unfolding r_def by (rule outer_loop_prefix) (use d i in simp_all)
  have li: "simplify (fst (inner_loop ps i)) (snd (inner_loop ps i)) = Return (quotient_of b)"
    unfolding b_def using den by (rule simplify_Fract)
  have tm: "mulFrac (y (ps ! i), 1) (quotient_of b) = Return (quotient_of (of_int (y (ps ! i)) * b))"
    by (rule mulFrac_quotient)
  have ad: "addFrac (quotient_of r) (quotient_of (of_int (y (ps ! i)) * b)) =
      Return (quotient_of (r + of_int (y (ps ! i)) * b))"
    by (rule addFrac_quotient)
  have st: "outer_step ps i (quotient_of r) = Return (quotient_of (r + of_int (y (ps ! i)) * b))"
    using den by (simp add: outer_step_quotient term_at_def b_def)
  have nx: "outer_loop ps [0..<Suc i] (0, 1) =
      Return (quotient_of (r + of_int (y (ps ! i)) * b))"
    by (simp add: outer_loop_append res st)
  show "\<exists>res li term res'.
         outer_loop ps [0..<i] (0, 1) = Return res \<and> normal_form res \<and>
         simplify (fst (inner_loop ps i)) (snd (inner_loop ps i)) = Return li \<and> normal_form li \<and>
         mulFrac (y (ps ! i), 1) li = Return term \<and> normal_form term \<and>
         addFrac res term = Return res' \<and> normal_form res' \<and>
         outer_loop ps [0..<Suc i] (0, 1) = Return res'"
    using res li tm ad nx normal_form_quotient_of by blast
qed

text \<open>
  The fractions 6/(-4), 1/2 + 1/(-3) and 1/2 * 1/(-3), and the second iteration on the
  points (1,4), (2,7), (3,12).
\<close>

theorem fraction_normal_form_witness:
  "(- 4 :: int) \<noteq> 0 \<and> simplify 6 (- 4) = Return (- 3, 2) \<and> normal_form (- 3, 2) \<and>
   (2 :: int) \<noteq> 0 \<and> (- 3 :: int) \<noteq> 0 \<and>
   (\<exists>f. addFrac (1, 2) (1, - 3) = Return f \<and> normal_form f) \<and>
   (\<exists>f. mulFrac (1, 2) (1, - 3) = Return f \<and> normal_form f) \<and>
   distinct (map x [\<lparr>x = 1, y = 4\<rparr>, \<lparr>x = 2, y = 7\<rparr>, \<lparr>x = 3, y = 12\<rparr>]) \<and>
   (\<exists>res'. outer_loop [\<lparr>x = 1, y = 4\<rparr>, \<lparr>x = 2, y = 7\<rparr>, \<lparr>x = 3, y = 12\<rparr>] [0..<Suc 1] (0, 1) =
             Return res' \<and> normal_form res')"
proof -
  let ?ps = "[\<lparr>x = 1, y = 4\<rparr>, \<lparr>x = 2, y = 7\<rparr>, \<lparr>x = 3, y = 12\<rparr>]"
  note inv = fraction_normal_form[where den = "- 4" and num = 6 and ?n1.0 = 1 and ?d1.0 = 2
      and ?n2.0 = 1 and ?d2.0 = "- 3" and ps = ?ps and i = 1]
  have s: "simplify 6 (- 4) = Return (- 3, 2)" by code_simp
  have "\<exists>f. simplify 6 (- 4) = Return f \<and> normal_form f" using inv by simp
  then have n: "normal_form (- 3, 2)" by (simp add: s)
  have a: "\<exists>f. addFrac (1, 2) (1, - 3) = Return f \<and> normal_form f" using inv by simp
  have m: "\<exists>f. mulFrac (1, 2) (1, - 3) = Return f \<and> normal_form f" using inv by simp
  have d: "distinct (map x ?ps)" by simp
  have "\<exists>res'. outer_loop ?ps [0..<Suc 1] (0, 1) = Return res' \<and> normal_form res'"
    using inv d by simp blast
  then show ?thesis using s n a m d by simp
qed

text \<open>
  C8, as the code has it: on the empty list of points the loop does not run and the
  function returns 0, without a warning and without an error.
\<close>

theorem lagrange_no_shares:
  "lagrangeInterpolationAtZero [] = Return \<lparr>warned = False, val = 0\<rparr>"
  by (simp add: lagrangeInterpolationAtZero_def finish_def bigint_div_def tdiv_def)

text \<open>C8 as stated fails: the call on the empty list is not rejected.\<close>

theorem lagrange_no_shares_counterexample:
  "\<not> throws (lagrangeInterpolationAtZero [])"
  by (simp add: lagrangeInterpolationAtZero_def finish_def bigint_div_def throws_def)

section \<open>Termination\<close>

text \<open>
  C9: the loop of \<^verbatim>\<open>gcd\<close> ends for every pair of integers, and \<^verbatim>\<open>decodeValue\<close> and
  \<^verbatim>\<open>lagrangeInterpolationAtZero\<close> end on every input: each call either returns a value or
  throws one of the two RangeErrors, and never runs forever.
\<close>

theorem evaluation_terminates:
  "(\<exists>g. gcd_js a b = Some g) \<and>
   (\<exists>v. decodeValue base digits = Return v \<or>
        decodeValue base digits = Throw RangeError_not_an_integer) \<and>
   (\<exists>out. lagrangeInterpolationAtZero ps = Return out \<or>
          lagrangeInterpolationAtZero ps = Throw RangeError_division_by_zero)"
proof (intro conjI)
  show "\<exists>g. gcd_js a b = Some g" by (simp add: gcd_js_eq)
  show "\<exists>v. decodeValue base digits = Return v \<or>
        decodeValue base digits = Throw RangeError_not_an_integer"
    using decode_loop_total[of base _ "toLowerCase digits" 0]
    by (cases base) (auto simp: decodeValue_def)
  show "\<exists>out. lagrangeInterpolationAtZero ps = Return out \<or>
          lagrangeInterpolationAtZero ps = Throw RangeError_division_by_zero"
    using outer_loop_total[of ps "[0..<length ps]" "(0, 1)"]
  proof
    assume "outer_loop ps [0..<length ps] (0, 1) = Throw RangeError_division_by_zero"
    then show ?thesis by (simp add: lagrangeInterpolationAtZero_def)
  next
    assume "\<exists>f. outer_loop ps [0..<length ps] (0, 1) = Return f"
    then obtain n d where loop: "outer_loop ps [0..<length ps] (0, 1) = Return (n, d)" by force
    then have "0 < d" by (rule outer_loop_positive_den)
    then show ?thesis
      using loop by (simp add: lagrangeInterpolationAtZero_def finish_def bigint_div_def)
  qed
qed

end
